theory Spec2Isabelle
  imports Main
begin

section \<open>Values\<close>

text \<open>
  The data handed to the validator (\<open>source\<close>, \<open>contextData\<close>) is plain JavaScript data.
  Numbers are modelled as integers; objects are association lists in insertion order;
  arrays are dense lists. Only own data properties are modelled (no prototype chain).
\<close>

datatype jsval =
    JUndefined
  | JNull
  | JBool bool
  | JNum int
  | JStr string
  | JArr "jsval list"
  | JObj "(string \<times> jsval) list"

text \<open>What a caller-supplied function throws (or rejects with).\<close>

datatype error = Thrown string

text \<open>types.ts: \<open>ValidationContext\<close>.\<close>

record ValidationContext =
  currentFieldName :: string
  source :: jsval
  contextData :: jsval

text \<open>types.ts: \<open>ValidationMessage = string | ((context) => string)\<close>.\<close>

datatype ValidationMessage =
    MLit string
  | MFun "ValidationContext \<Rightarrow> error + string"

text \<open>types.ts: \<open>StopPolicy = 'fields' | 'tests'\<close>.\<close>

datatype StopPolicy = StopFields | StopTests

text \<open>What a test's \<open>fn\<close> returns: \<open>boolean | string\<close>.\<close>

datatype test_result = RBool bool | RStr string

type_synonym EmptyFieldTest = "jsval \<Rightarrow> ValidationContext \<Rightarrow> error + bool"

text \<open>types.ts: \<open>ValidationTest\<close>.\<close>

record ValidationTest =
  fn :: "jsval \<Rightarrow> ValidationContext \<Rightarrow> error + test_result"
  message :: "ValidationMessage option"

text \<open>
  types.ts: \<open>ValidationField\<close>. An absent optional member is \<open>None\<close>
  (\<open>fields'\<close> is the member \<open>fields\<close>); an absent \<open>isOptional\<close> is \<open>False\<close>
  (the code only tests its truthiness).
\<close>

datatype ValidationField = ValidationField
  (name : string)
  (isOptional : bool)
  (tests : "ValidationTest list option")
  (fields' : "ValidationField list option")
  (emptyTest : "EmptyFieldTest option")
  (emptyFieldMessage : "ValidationMessage option")
  (skipIf : "(ValidationContext \<Rightarrow> error + bool) option")
  (stopOnFailure : "StopPolicy option")
  (stopOnSuccess : "StopPolicy option")

type_synonym ValidationFields = "ValidationField list"

text \<open>
  What can be stored in the output object: the declared \<open>boolean | string\<close>, a message
  function (\<open>resolveFailedFieldError\<close> returns the message unresolved), and the containers
  that the path setter creates. \<open>OUndefined\<close> fills the holes of a sparse array.
\<close>

datatype outval =
    OUndefined
  | OBool bool
  | OStr string
  | OFun "ValidationContext \<Rightarrow> error + string"
  | OArr "outval list"
  | OObj "(string \<times> outval) list"

text \<open>types.ts: \<open>ValidationState\<close>; \<open>fields\<close> is the object's entries in key order.\<close>

record ValidationState =
  isValid :: bool
  fields_state :: "(string \<times> outval) list"

section \<open>JavaScript primitives used by the code\<close>

definition truthy :: "jsval \<Rightarrow> bool" where
  "truthy v = (case v of
      JUndefined \<Rightarrow> False
    | JNull \<Rightarrow> False
    | JBool b \<Rightarrow> b
    | JNum n \<Rightarrow> n \<noteq> 0
    | JStr s \<Rightarrow> s \<noteq> []
    | JArr _ \<Rightarrow> True
    | JObj _ \<Rightarrow> True)"

definition typeof_number :: "jsval \<Rightarrow> bool" where
  "typeof_number v = (case v of JNum _ \<Rightarrow> True | _ \<Rightarrow> False)"

definition digit_value :: "char \<Rightarrow> nat option" where
  "digit_value c = map_of
     [(CHR ''0'', 0), (CHR ''1'', 1), (CHR ''2'', 2), (CHR ''3'', 3), (CHR ''4'', 4),
      (CHR ''5'', 5), (CHR ''6'', 6), (CHR ''7'', 7), (CHR ''8'', 8), (CHR ''9'', 9)] c"

fun digits_value :: "nat \<Rightarrow> string \<Rightarrow> nat option" where
  "digits_value acc [] = Some acc"
| "digits_value acc (c # cs) =
     (case digit_value c of None \<Rightarrow> None | Some d \<Rightarrow> digits_value (10 * acc + d) cs)"

text \<open>
  A canonical array index: \<open>0\<close> or a digit string without leading zero
  (\<open>/^(?:0|[1-9]\d*)$/\<close>), as a number.
\<close>

definition array_index :: "string \<Rightarrow> nat option" where
  "array_index k =
     (if k = [] then None
      else if hd k = CHR ''0'' \<and> tl k \<noteq> [] then None
      else digits_value 0 k)"

text \<open>JavaScript's \<open>object[key]\<close> on a value that is neither \<open>null\<close> nor \<open>undefined\<close>.\<close>

definition get_prop :: "jsval \<Rightarrow> string \<Rightarrow> jsval" where
  "get_prop v k = (case v of
      JObj kvs \<Rightarrow> (case map_of kvs k of Some x \<Rightarrow> x | None \<Rightarrow> JUndefined)
    | JArr xs \<Rightarrow>
        (if k = ''length'' then JNum (int (length xs))
         else case array_index k of
             Some i \<Rightarrow> if i < length xs then xs ! i else JUndefined
           | None \<Rightarrow> JUndefined)
    | JStr s \<Rightarrow>
        (if k = ''length'' then JNum (int (length s))
         else case array_index k of
             Some i \<Rightarrow> if i < length s then JStr [s ! i] else JUndefined
           | None \<Rightarrow> JUndefined)
    | _ \<Rightarrow> JUndefined)"

text \<open>JavaScript's \<open>key in Object(value)\<close>, for own properties.\<close>

definition has_prop :: "jsval \<Rightarrow> string \<Rightarrow> bool" where
  "has_prop v k = (case v of
      JObj kvs \<Rightarrow> k \<in> set (map fst kvs)
    | JArr xs \<Rightarrow>
        k = ''length'' \<or> (case array_index k of Some i \<Rightarrow> i < length xs | None \<Rightarrow> False)
    | JStr s \<Rightarrow>
        k = ''length'' \<or> (case array_index k of Some i \<Rightarrow> i < length s | None \<Rightarrow> False)
    | _ \<Rightarrow> False)"

text \<open>\<open>data?.length\<close>\<close>

definition optional_length :: "jsval \<Rightarrow> jsval" where
  "optional_length data =
     (if data = JNull \<or> data = JUndefined then JUndefined else get_prop data ''length'')"

section \<open>ObjectValidator.ts: constants and the default emptiness test\<close>

definition DEFAULT_EMPTY_MANDATORY_FIELD_ERROR :: string where
  "DEFAULT_EMPTY_MANDATORY_FIELD_ERROR = ''empty-mandatory-field''"

definition DEFAULT_FAILED_FIELD_ERROR :: string where
  "DEFAULT_FAILED_FIELD_ERROR = ''field-validation-failed''"

text \<open>
  \<open>(data, context) => typeof data !== "number" && (data === false || !data?.length)\<close>
\<close>

definition DEFAULT_EMPTY_FIELD_TEST :: EmptyFieldTest where
  "DEFAULT_EMPTY_FIELD_TEST data context =
     Inr (\<not> typeof_number data \<and> (data = JBool False \<or> \<not> truthy (optional_length data)))"



section \<open>Dot paths\<close>

text \<open>\<open>s.split(".")\<close>: never the empty list.\<close>

fun split_dot :: "string \<Rightarrow> string list" where
  "split_dot [] = [[]]"
| "split_dot (c # cs) =
     (if c = CHR ''.'' then [] # split_dot cs
      else case split_dot cs of w # ws \<Rightarrow> (c # w) # ws | [] \<Rightarrow> [[c]])"

text \<open>\<open>segs.join(".")\<close>\<close>

fun join_dot :: "string list \<Rightarrow> string" where
  "join_dot [] = []"
| "join_dot [w] = w"
| "join_dot (w # w' # ws) = w @ ''.'' @ join_dot (w' # ws)"

text \<open>The decimal numeral of an array index, as the template literal prints it.\<close>

definition digit_char :: "nat \<Rightarrow> char" where
  "digit_char d = ''0123456789'' ! d"

fun string_of_nat :: "nat \<Rightarrow> string" where
  "string_of_nat n =
     (if n < 10 then [digit_char n] else string_of_nat (n div 10) @ [digit_char (n mod 10)])"

declare string_of_nat.simps [simp del]

text \<open>
  \<open>base.split(".").concat(field.name.split("."), "").filter((seg) => !!seg).join(".")\<close>
\<close>

definition field_path :: "string \<Rightarrow> string \<Rightarrow> string" where
  "field_path base nm =
     join_dot (filter (\<lambda>seg. seg \<noteq> []) (split_dot base @ split_dot nm @ [[]]))"

section \<open>The path accessor\<close>

text \<open>
  Modelled from the spec: the path accessor (the packages \<open>lodash.get\<close> and \<open>lodash.set\<close>)
  is imported by ObjectValidator.ts and is not part of the repository. The specification
  gives its contract: \<open>get(object, dotPath)\<close> reads a value or \<open>undefined\<close>;
  \<open>set(object, dotPath, value)\<close> writes a value, creating intermediate maps or sequences
  as needed; purely numeric segments address sequence elements. The model follows the
  packages where the contract is silent: a path that is an own key of the object is used
  as that key, undivided, and a path without a dot is one key. Bracket notation in paths,
  and named properties of arrays and functions, are not modelled.
\<close>

definition is_deep_prop :: "string \<Rightarrow> bool" where
  "is_deep_prop p = (CHR ''.'' \<in> set p)"

definition get_path_of :: "jsval \<Rightarrow> string \<Rightarrow> string list" where
  "get_path_of object p =
     (if \<not> is_deep_prop p \<or> (object \<noteq> JNull \<and> object \<noteq> JUndefined \<and> has_prop object p)
      then [p] else split_dot p)"

fun baseGet :: "jsval \<Rightarrow> string list \<Rightarrow> jsval" where
  "baseGet object [] = object"
| "baseGet object (k # ks) =
     (if object = JNull \<or> object = JUndefined then JUndefined
      else baseGet (get_prop object k) ks)"

definition lodash_get :: "jsval \<Rightarrow> string \<Rightarrow> jsval" where
  "lodash_get object p =
     (if object = JNull \<or> object = JUndefined then JUndefined
      else baseGet object (get_path_of object p))"

text \<open>\<open>object[key] = value\<close> on the entries of an object: in place, or appended.\<close>

fun obj_assign :: "(string \<times> 'a) list \<Rightarrow> string \<Rightarrow> 'a \<Rightarrow> (string \<times> 'a) list" where
  "obj_assign [] k v = [(k, v)]"
| "obj_assign ((k', v') # kvs) k v =
     (if k' = k then (k, v) # kvs else (k', v') # obj_assign kvs k v)"

definition out_prop :: "outval \<Rightarrow> string \<Rightarrow> outval" where
  "out_prop v k = (case v of
      OObj kvs \<Rightarrow> (case map_of kvs k of Some x \<Rightarrow> x | None \<Rightarrow> OUndefined)
    | OArr xs \<Rightarrow>
        (case array_index k of
           Some i \<Rightarrow> if i < length xs then xs ! i else OUndefined
         | None \<Rightarrow> OUndefined)
    | _ \<Rightarrow> OUndefined)"

definition out_has_prop :: "outval \<Rightarrow> string \<Rightarrow> bool" where
  "out_has_prop v k = (case v of
      OObj kvs \<Rightarrow> k \<in> set (map fst kvs)
    | OArr xs \<Rightarrow>
        k = ''length'' \<or> (case array_index k of Some i \<Rightarrow> i < length xs | None \<Rightarrow> False)
    | _ \<Rightarrow> False)"

definition isObject :: "outval \<Rightarrow> bool" where
  "isObject v = (case v of OObj _ \<Rightarrow> True | OArr _ \<Rightarrow> True | OFun _ \<Rightarrow> True | _ \<Rightarrow> False)"

definition isIndex :: "string \<Rightarrow> bool" where
  "isIndex k = (case array_index k of Some i \<Rightarrow> int i < 9007199254740991 | None \<Rightarrow> False)"

definition assignValue :: "outval \<Rightarrow> string \<Rightarrow> outval \<Rightarrow> outval" where
  "assignValue object k v = (case object of
      OObj kvs \<Rightarrow> OObj (obj_assign kvs k v)
    | OArr xs \<Rightarrow>
        (case array_index k of
           Some i \<Rightarrow>
             OArr (if i < length xs then xs[i := v]
                   else xs @ replicate (i - length xs) OUndefined @ [v])
         | None \<Rightarrow> OArr xs)
    | other \<Rightarrow> other)"

fun baseSet :: "outval \<Rightarrow> string list \<Rightarrow> outval \<Rightarrow> outval" where
  "baseSet nested [] v = nested"
| "baseSet nested [k] v = assignValue nested k v"
| "baseSet nested (k # k' # ks) v =
     (let objValue = out_prop nested k;
          newValue = (if isObject objValue then objValue
                      else if isIndex k' then OArr [] else OObj [])
      in assignValue nested k (baseSet newValue (k' # ks) v))"

definition set_path_of :: "outval \<Rightarrow> string \<Rightarrow> string list" where
  "set_path_of object p =
     (if \<not> is_deep_prop p \<or> out_has_prop object p then [p] else split_dot p)"

definition lodash_set :: "outval \<Rightarrow> string \<Rightarrow> outval \<Rightarrow> outval" where
  "lodash_set object p v =
     (if isObject object then baseSet object (set_path_of object p) v else object)"

text \<open>\<open>Array.isArray\<close>, and the elements a \<open>for ... of\<close> over an array visits.\<close>

definition isArray :: "jsval \<Rightarrow> bool" where
  "isArray v = (case v of JArr _ \<Rightarrow> True | _ \<Rightarrow> False)"

definition elements :: "jsval \<Rightarrow> jsval list" where
  "elements v = (case v of JArr xs \<Rightarrow> xs | _ \<Rightarrow> [])"

section \<open>ObjectValidator.ts: the validator\<close>

text \<open>The instance members of the class.\<close>

record ObjectValidator =
  rules :: ValidationFields
  mandatoryFieldError :: ValidationMessage
  failedFieldError :: ValidationMessage
  emptyFieldTest :: EmptyFieldTest

text \<open>The static members of the class: the process-wide defaults.\<close>

record ObjectValidator_static =
  defaultMandatoryFieldError :: ValidationMessage
  defaultFailedFieldMessage :: ValidationMessage

definition initial_static :: ObjectValidator_static where
  "initial_static =
     \<lparr>defaultMandatoryFieldError = MLit DEFAULT_EMPTY_MANDATORY_FIELD_ERROR,
      defaultFailedFieldMessage = MLit DEFAULT_FAILED_FIELD_ERROR\<rparr>"

definition setDefaultMandatoryFieldError ::
  "ValidationMessage \<Rightarrow> ObjectValidator_static \<Rightarrow> ObjectValidator_static" where
  "setDefaultMandatoryFieldError err g = g\<lparr>defaultMandatoryFieldError := err\<rparr>"

definition setDefaultFailedFieldMessage ::
  "ValidationMessage \<Rightarrow> ObjectValidator_static \<Rightarrow> ObjectValidator_static" where
  "setDefaultFailedFieldMessage err g = g\<lparr>defaultFailedFieldMessage := err\<rparr>"

text \<open>\<open>constructor(fields)\<close>, with the member initialisers.\<close>

definition new_ObjectValidator :: "ValidationFields \<Rightarrow> ObjectValidator" where
  "new_ObjectValidator fs =
     \<lparr>rules = fs,
      mandatoryFieldError = MLit DEFAULT_EMPTY_MANDATORY_FIELD_ERROR,
      failedFieldError = MLit DEFAULT_FAILED_FIELD_ERROR,
      emptyFieldTest = DEFAULT_EMPTY_FIELD_TEST\<rparr>"

definition withFailedFieldDefaultError ::
  "ValidationMessage \<Rightarrow> ObjectValidator \<Rightarrow> ObjectValidator" where
  "withFailedFieldDefaultError err this = this\<lparr>failedFieldError := err\<rparr>"

definition withMandatoryFieldError ::
  "ValidationMessage \<Rightarrow> ObjectValidator \<Rightarrow> ObjectValidator" where
  "withMandatoryFieldError msg this = this\<lparr>mandatoryFieldError := msg\<rparr>"

definition withEmptyFieldTest :: "EmptyFieldTest \<Rightarrow> ObjectValidator \<Rightarrow> ObjectValidator" where
  "withEmptyFieldTest f this = this\<lparr>emptyFieldTest := f\<rparr>"

text \<open>
  The calls of caller-supplied functions, in the order the engine makes them, with their
  arguments and what they returned or threw. The engine never reads this record; it is
  kept so that statements about which functions are called, and with what, can be made.
\<close>

datatype call =
    CallEmptyTest jsval ValidationContext "error + bool"
  | CallSkipIf ValidationContext "error + bool"
  | CallTestFn jsval ValidationContext "error + test_result"
  | CallMessage ValidationContext "error + string"

definition call_context :: "call \<Rightarrow> ValidationContext" where
  "call_context c = (case c of
      CallEmptyTest v ctx res \<Rightarrow> ctx
    | CallSkipIf ctx res \<Rightarrow> ctx
    | CallTestFn v ctx res \<Rightarrow> ctx
    | CallMessage ctx res \<Rightarrow> ctx)"

definition thrown_by :: "error + 'a \<Rightarrow> error option" where
  "thrown_by res = (case res of Inl e \<Rightarrow> Some e | Inr v \<Rightarrow> None)"

definition call_threw :: "call \<Rightarrow> error option" where
  "call_threw c = (case c of
      CallEmptyTest v ctx res \<Rightarrow> thrown_by res
    | CallSkipIf ctx res \<Rightarrow> thrown_by res
    | CallTestFn v ctx res \<Rightarrow> thrown_by res
    | CallMessage ctx res \<Rightarrow> thrown_by res)"

definition is_test_call :: "call \<Rightarrow> bool" where
  "is_test_call c = (case c of CallTestFn v ctx res \<Rightarrow> True | _ \<Rightarrow> False)"

text \<open>A computation that may throw: the calls made so far, and an error or a value.\<close>

type_synonym 'a outcome = "call list \<times> (error + 'a)"

text \<open>
  \<open>typeof message === "function" ? message(context) : message\<close>
\<close>

definition resolveMessage ::
  "ValidationMessage \<Rightarrow> ValidationContext \<Rightarrow> call list \<Rightarrow> string outcome" where
  "resolveMessage msg context calls = (case msg of
      MLit s \<Rightarrow> (calls, Inr s)
    | MFun f \<Rightarrow> (calls @ [CallMessage context (f context)], f context))"

text \<open>
  \<open>resolveMessage(this.mandatoryFieldError, context) !==
    resolveMessage(DEFAULT_EMPTY_MANDATORY_FIELD_ERROR, context)
    ? this.mandatoryFieldError : ObjectValidator.defaultMandatoryFieldError\<close>
\<close>

definition resolveMandatoryFieldError ::
  "ObjectValidator \<Rightarrow> ObjectValidator_static \<Rightarrow> ValidationContext \<Rightarrow> call list
   \<Rightarrow> ValidationMessage outcome" where
  "resolveMandatoryFieldError this g context calls =
     (case resolveMessage (mandatoryFieldError this) context calls of
        (calls1, Inl e) \<Rightarrow> (calls1, Inl e)
      | (calls1, Inr mine) \<Rightarrow>
          (case resolveMessage (MLit DEFAULT_EMPTY_MANDATORY_FIELD_ERROR) context calls1 of
             (calls2, Inl e) \<Rightarrow> (calls2, Inl e)
           | (calls2, Inr dflt) \<Rightarrow>
               (calls2, Inr (if mine \<noteq> dflt then mandatoryFieldError this
                             else defaultMandatoryFieldError g))))"

definition resolveFailedFieldError ::
  "ObjectValidator \<Rightarrow> ObjectValidator_static \<Rightarrow> ValidationContext \<Rightarrow> call list
   \<Rightarrow> ValidationMessage outcome" where
  "resolveFailedFieldError this g context calls =
     (case resolveMessage (failedFieldError this) context calls of
        (calls1, Inl e) \<Rightarrow> (calls1, Inl e)
      | (calls1, Inr mine) \<Rightarrow>
          (case resolveMessage (MLit DEFAULT_FAILED_FIELD_ERROR) context calls1 of
             (calls2, Inl e) \<Rightarrow> (calls2, Inl e)
           | (calls2, Inr dflt) \<Rightarrow>
               (calls2, Inr (if mine \<noteq> dflt then failedFieldError this
                             else defaultFailedFieldMessage g))))"

text \<open>Truthiness of an optional message member: absent and \<open>""\<close> are falsy.\<close>

definition message_present :: "ValidationMessage option \<Rightarrow> ValidationMessage option" where
  "message_present m = (case m of
      Some (MLit s) \<Rightarrow> (if s = [] then None else Some (MLit s))
    | Some (MFun f) \<Rightarrow> Some (MFun f)
    | None \<Rightarrow> None)"

text \<open>A message as a stored value.\<close>

definition message_value :: "ValidationMessage \<Rightarrow> outval" where
  "message_value m = (case m of MLit s \<Rightarrow> OStr s | MFun f \<Rightarrow> OFun f)"

text \<open>
  One run of \<open>validate\<close> fixes the validator instance, the process-wide defaults as they
  are at the call, and the caller's \<open>contextData\<close>.
\<close>

record run =
  this :: ObjectValidator
  static :: ObjectValidator_static
  data :: jsval

text \<open>\<open>Object.freeze({currentFieldName: field.name, source, contextData})\<close>\<close>

definition aContext :: "run \<Rightarrow> jsval \<Rightarrow> ValidationField \<Rightarrow> ValidationContext" where
  "aContext r src field =
     \<lparr>currentFieldName = name field, source = src, contextData = data r\<rparr>"

text \<open>\<open>await (field.emptyTest || this.emptyFieldTest)(fieldData, aContext)\<close>\<close>

definition call_emptyTest ::
  "run \<Rightarrow> ValidationField \<Rightarrow> jsval \<Rightarrow> ValidationContext \<Rightarrow> call list \<Rightarrow> bool outcome" where
  "call_emptyTest r field fieldData context calls =
     (let res = (case emptyTest field of Some t \<Rightarrow> t | None \<Rightarrow> emptyFieldTest (this r))
                  fieldData context
      in (calls @ [CallEmptyTest fieldData context res], res))"

text \<open>\<open>field.skipIf && field.skipIf(aContext)\<close>\<close>

definition call_skipIf ::
  "ValidationField \<Rightarrow> ValidationContext \<Rightarrow> call list \<Rightarrow> bool outcome" where
  "call_skipIf field context calls = (case skipIf field of
      None \<Rightarrow> (calls, Inr False)
    | Some s \<Rightarrow> (calls @ [CallSkipIf context (s context)], s context))"

text \<open>
  \<open>resolveMessage(field.emptyFieldMessage || this.resolveMandatoryFieldError(aContext),
    aContext)\<close>
\<close>

definition mandatory_message ::
  "run \<Rightarrow> ValidationField \<Rightarrow> ValidationContext \<Rightarrow> call list \<Rightarrow> string outcome" where
  "mandatory_message r field context calls =
     (case message_present (emptyFieldMessage field) of
        Some m \<Rightarrow> resolveMessage m context calls
      | None \<Rightarrow>
          (case resolveMandatoryFieldError (this r) (static r) context calls of
             (calls1, Inl e) \<Rightarrow> (calls1, Inl e)
           | (calls1, Inr m) \<Rightarrow> resolveMessage m context calls1))"

text \<open>
  \<open>typeof result === "string" ? result
    : test.message ? resolveMessage(test.message, aContext)
    : this.resolveFailedFieldError(aContext)\<close>
\<close>

definition failure_message ::
  "run \<Rightarrow> ValidationTest \<Rightarrow> test_result \<Rightarrow> ValidationContext \<Rightarrow> call list
   \<Rightarrow> outval outcome" where
  "failure_message r test result context calls = (case result of
      RStr s \<Rightarrow> (calls, Inr (OStr s))
    | RBool b \<Rightarrow>
        (case message_present (message test) of
           Some m \<Rightarrow>
             (case resolveMessage m context calls of
                (calls1, Inl e) \<Rightarrow> (calls1, Inl e)
              | (calls1, Inr s) \<Rightarrow> (calls1, Inr (OStr s)))
         | None \<Rightarrow>
             (case resolveFailedFieldError (this r) (static r) context calls of
                (calls1, Inl e) \<Rightarrow> (calls1, Inl e)
              | (calls1, Inr m) \<Rightarrow> (calls1, Inr (message_value m)))))"

text \<open>
  The loop over \<open>field.tests\<close>. The state is the output object and the local \<open>valid\<close>
  of the enclosing \<open>evaluateFields\<close>; the result adds \<open>stopFields\<close>.
\<close>

fun run_tests ::
  "run \<Rightarrow> ValidationField \<Rightarrow> jsval \<Rightarrow> ValidationContext \<Rightarrow> string \<Rightarrow> ValidationTest list
   \<Rightarrow> outval \<Rightarrow> bool \<Rightarrow> call list \<Rightarrow> (outval \<times> bool \<times> bool) outcome" where
  "run_tests r field fieldData context path [] out valid calls =
     (calls, Inr (out, valid, False))"
| "run_tests r field fieldData context path (test # later) out valid calls =
     (case fn test fieldData context of
        Inl e \<Rightarrow> (calls @ [CallTestFn fieldData context (Inl e)], Inl e)
      | Inr result \<Rightarrow>
          (let calls1 = calls @ [CallTestFn fieldData context (Inr result)] in
           if result \<noteq> RBool True then
             (case failure_message r test result context calls1 of
                (calls2, Inl e) \<Rightarrow> (calls2, Inl e)
              | (calls2, Inr msg) \<Rightarrow>
                  (let out1 = lodash_set out path msg in
                   case stopOnFailure field of
                     Some policy \<Rightarrow> (calls2, Inr (out1, False, policy = StopFields))
                   | None \<Rightarrow> run_tests r field fieldData context path later out1 False calls2))
           else
             (case stopOnSuccess field of
                Some policy \<Rightarrow> (calls1, Inr (out, valid, policy = StopFields))
              | None \<Rightarrow> run_tests r field fieldData context path later out valid calls1)))"

text \<open>
  \<open>evaluateFields\<close>. \<open>fields_loop\<close> is the loop over \<open>fields\<close>, started with the local
  \<open>valid\<close>; \<open>fan_out\<close> is the loop over the elements of an array field, with the running
  index, which calls \<open>evaluateFields\<close> on each element with a fresh \<open>valid\<close>.
\<close>

function fields_loop ::
    "run \<Rightarrow> jsval \<Rightarrow> string \<Rightarrow> ValidationField list \<Rightarrow> outval \<Rightarrow> bool \<Rightarrow> call list
     \<Rightarrow> (outval \<times> bool) outcome"
  and fan_out ::
    "run \<Rightarrow> ValidationField list \<Rightarrow> string \<Rightarrow> jsval list \<Rightarrow> nat \<Rightarrow> outval \<Rightarrow> bool \<Rightarrow> call list
     \<Rightarrow> (outval \<times> bool) outcome"
where
  "fields_loop r src base [] out valid calls = (calls, Inr (out, valid))"
| "fields_loop r src base (field # rest) out valid calls =
     (let fieldData = lodash_get src (name field);
          context = aContext r src field
      in case call_emptyTest r field fieldData context calls of
           (calls1, Inl e) \<Rightarrow> (calls1, Inl e)
         | (calls1, Inr isEmpty) \<Rightarrow>
       (case call_skipIf field context calls1 of
           (calls2, Inl e) \<Rightarrow> (calls2, Inl e)
         | (calls2, Inr skip) \<Rightarrow>
       if skip then fields_loop r src base rest out valid calls2
       else if isOptional field \<and> isEmpty then fields_loop r src base rest out valid calls2
       else
         (let path = field_path base (name field) in
          if \<not> isOptional field \<and> isEmpty then
            (case mandatory_message r field context calls2 of
               (calls3, Inl e) \<Rightarrow> (calls3, Inl e)
             | (calls3, Inr msg) \<Rightarrow>
                 fields_loop r src base rest (lodash_set out path (OStr msg)) False calls3)
          else
            (let out1 = lodash_set out path (OBool True) in
             case (case fields' field of
                     Some subfields \<Rightarrow>
                       if isArray (lodash_get src (name field))
                       then fan_out r subfields path (elements (lodash_get src (name field)))
                              0 out1 valid calls2
                       else (calls2, Inr (out1, valid))
                   | None \<Rightarrow> (calls2, Inr (out1, valid))) of
               (calls3, Inl e) \<Rightarrow> (calls3, Inl e)
             | (calls3, Inr (out2, valid2)) \<Rightarrow>
                 (case tests field of
                    None \<Rightarrow> fields_loop r src base rest out2 valid2 calls3
                  | Some ts \<Rightarrow>
                      (case run_tests r field fieldData context path ts out2 valid2 calls3 of
                         (calls4, Inl e) \<Rightarrow> (calls4, Inl e)
                       | (calls4, Inr (out3, valid3, stopFields)) \<Rightarrow>
                           if stopFields then (calls4, Inr (out3, valid3))
                           else fields_loop r src base rest out3 valid3 calls4))))))"
| "fan_out r subfields path [] idx out valid calls = (calls, Inr (out, valid))"
| "fan_out r subfields path (subData # later) idx out valid calls =
     (case fields_loop r subData (path @ ''.'' @ string_of_nat idx) subfields out True calls of
        (calls1, Inl e) \<Rightarrow> (calls1, Inl e)
      | (calls1, Inr (out1, sub_valid)) \<Rightarrow>
          fan_out r subfields path later (Suc idx) out1 (sub_valid \<and> valid) calls1)"
  by pat_completeness auto

termination
  apply (relation "inv_image (less_than <*lex*> less_than)
      (\<lambda>x. case x of
          Inl (r, src, base, fs, out, valid, calls) \<Rightarrow> (size_list size fs, 0::nat)
        | Inr (r, subfields, path, elems, idx, out, valid, calls) \<Rightarrow>
            (size_list size subfields, Suc (length elems)))")
         apply auto
    apply (case_tac [!] field)
    apply auto
  done

text \<open>\<open>evaluateFields({source, fields, out, contextData, base})\<close>: \<open>let valid = true\<close>, then the loop.\<close>

definition evaluateFields ::
  "run \<Rightarrow> jsval \<Rightarrow> ValidationFields \<Rightarrow> outval \<Rightarrow> string \<Rightarrow> call list
   \<Rightarrow> (outval \<times> bool) outcome" where
  "evaluateFields r src fs out base calls = fields_loop r src base fs out True calls"

text \<open>
  \<open>Object.keys(stateObj.fields).reduce((acc, key) => ({ ...acc, [key]: false }), {})\<close>
\<close>

definition initial_out :: "(string \<times> outval) list \<Rightarrow> outval" where
  "initial_out fs = OObj (foldl (\<lambda>acc key. obj_assign acc key (OBool False)) [] (map fst fs))"

text \<open>\<open>Object.assign(target, out)\<close>: every own entry of \<open>out\<close> is assigned to the target.\<close>

definition own_entries :: "outval \<Rightarrow> (string \<times> outval) list" where
  "own_entries v = (case v of
      OObj kvs \<Rightarrow> kvs
    | OArr xs \<Rightarrow> zip (map string_of_nat [0..<length xs]) xs
    | _ \<Rightarrow> [])"

definition Object_assign :: "(string \<times> outval) list \<Rightarrow> outval \<Rightarrow> (string \<times> outval) list" where
  "Object_assign target out = foldl (\<lambda>acc (k, v). obj_assign acc k v) target (own_entries out)"

text \<open>
  \<open>validate({stateObj, source, contextData})\<close>, on a validator and the process-wide
  defaults as they are at the call. The result is the caller's state object after the
  call, the calls made, and the error thrown or the value returned.
\<close>

definition validate ::
  "ObjectValidator \<Rightarrow> ObjectValidator_static \<Rightarrow> ValidationState \<Rightarrow> jsval \<Rightarrow> jsval
   \<Rightarrow> ValidationState \<times> bool outcome" where
  "validate self g stateObj src cd =
     (let out = initial_out (fields_state stateObj) in
      case evaluateFields \<lparr>this = self, static = g, data = cd\<rparr> src (rules self) out [] [] of
        (calls, Inl e) \<Rightarrow> (stateObj, calls, Inl e)
      | (calls, Inr (out1, valid)) \<Rightarrow>
          (stateObj\<lparr>fields_state := Object_assign (fields_state stateObj) out1,
                    isValid := valid\<rparr>,
           calls, Inr valid))"

section \<open>Notions used in the statements and proofs\<close>

text \<open>
  The record of calls is faithful to an outcome: the outcome extends the record it started
  from; if it is a value, no recorded call threw; if it is an error, only the last recorded
  call threw, and it threw that error.
\<close>

definition faithful :: "call list \<Rightarrow> 'a outcome \<Rightarrow> bool" where
  "faithful calls oc = (\<exists>extra. fst oc = calls @ extra \<and>
      (case snd oc of
         Inr v \<Rightarrow> list_all (\<lambda>c. call_threw c = None) extra
       | Inl e \<Rightarrow> extra \<noteq> [] \<and> list_all (\<lambda>c. call_threw c = None) (butlast extra)
                  \<and> call_threw (last extra) = Some e))"

text \<open>An outcome extends the record of calls it started from by calls that all satisfy \<open>A\<close>.\<close>

definition extends_by :: "(call \<Rightarrow> bool) \<Rightarrow> call list \<Rightarrow> 'a outcome \<Rightarrow> bool" where
  "extends_by A calls oc = (\<exists>extra. fst oc = calls @ extra \<and> list_all A extra)"

text \<open>
  The contexts that belong to a rule list evaluated against a source: the context of one
  of its rules, built on that source; or, for a rule with nested rules, a context that
  belongs to the nested rules evaluated against an element of the rule's array value.
\<close>

inductive rule_context ::
  "run \<Rightarrow> jsval \<Rightarrow> ValidationField list \<Rightarrow> ValidationContext \<Rightarrow> bool" where
  own: "field \<in> set fs \<Longrightarrow> rule_context r src fs (aContext r src field)"
| nested: "field \<in> set fs \<Longrightarrow> fields' field = Some sub
     \<Longrightarrow> subData \<in> set (elements (lodash_get src (name field)))
     \<Longrightarrow> rule_context r subData sub ctx \<Longrightarrow> rule_context r src fs ctx"

text \<open>The text of a message in a context, apart from the record of calls.\<close>

definition message_text :: "ValidationMessage \<Rightarrow> ValidationContext \<Rightarrow> error + string" where
  "message_text m ctx = (case m of MLit s \<Rightarrow> Inr s | MFun f \<Rightarrow> f ctx)"

text \<open>
  The mandatory-field message in the words of the specification: the field's own
  \<open>emptyFieldMessage\<close> if present; otherwise the validator-instance override if its
  resolved text differs from the process-wide default's resolved text; otherwise the
  process-wide default.
\<close>

definition spec_mandatory_text ::
  "ObjectValidator \<Rightarrow> ObjectValidator_static \<Rightarrow> ValidationField \<Rightarrow> ValidationContext
   \<Rightarrow> error + string" where
  "spec_mandatory_text self g field ctx = (case emptyFieldMessage field of
      Some m \<Rightarrow> message_text m ctx
    | None \<Rightarrow>
        (case message_text (mandatoryFieldError self) ctx of
           Inl e \<Rightarrow> Inl e
         | Inr mine \<Rightarrow>
             (case message_text (defaultMandatoryFieldError g) ctx of
                Inl e \<Rightarrow> Inl e
              | Inr dflt \<Rightarrow>
                  message_text (if mine \<noteq> dflt then mandatoryFieldError self
                                else defaultMandatoryFieldError g) ctx)))"

text \<open>
  The precedence the code implements: the field's own \<open>emptyFieldMessage\<close> if it is
  truthy; otherwise the validator-instance message if its resolved text differs from the
  built-in text \<open>"empty-mandatory-field"\<close>; otherwise the process-wide default.
\<close>

definition mandatory_text ::
  "ObjectValidator \<Rightarrow> ObjectValidator_static \<Rightarrow> ValidationField \<Rightarrow> ValidationContext
   \<Rightarrow> error + string" where
  "mandatory_text self g field ctx = (case message_present (emptyFieldMessage field) of
      Some m \<Rightarrow> message_text m ctx
    | None \<Rightarrow>
        (case message_text (mandatoryFieldError self) ctx of
           Inl e \<Rightarrow> Inl e
         | Inr mine \<Rightarrow>
             message_text (if mine \<noteq> DEFAULT_EMPTY_MANDATORY_FIELD_ERROR
                           then mandatoryFieldError self
                           else defaultMandatoryFieldError g) ctx))"




section \<open>Example inputs\<close>

text \<open>The rule \<open>{name: nm}\<close>.\<close>

definition field_named :: "string \<Rightarrow> ValidationField" where
  "field_named nm = ValidationField nm False None None None None None None None"

text \<open>A context for examples that do not depend on it.\<close>

definition some_context :: ValidationContext where
  "some_context = \<lparr>currentFieldName = ''name'', source = JObj [], contextData = JUndefined\<rparr>"

text \<open>
  The array example: \<open>{subs: [{bread: "grains"}, {bread: "wholemeal"}]}\<close> against
  \<open>{name: "subs", fields: [{name: "bread",
     tests: [{fn: v => ["herbs", "wholemeal"].includes(v)}]}]}\<close>.
\<close>

definition bread_test :: ValidationTest where
  "bread_test =
     \<lparr>fn = (\<lambda>v ctx. Inr (RBool (v \<in> set [JStr ''herbs'', JStr ''wholemeal'']))),
      message = None\<rparr>"

definition bread_field :: ValidationField where
  "bread_field =
     ValidationField ''bread'' False (Some [bread_test]) None None None None None None"

definition subs_field :: ValidationField where
  "subs_field =
     ValidationField ''subs'' False None (Some [bread_field]) None None None None None"

definition subs_source :: jsval where
  "subs_source =
     JObj [(''subs'', JArr [JObj [(''bread'', JStr ''grains'')],
                            JObj [(''bread'', JStr ''wholemeal'')]])]"

text \<open>A test that throws, on a field \<open>age\<close> that follows a field \<open>name\<close>.\<close>

definition throwing_test :: ValidationTest where
  "throwing_test = \<lparr>fn = (\<lambda>v ctx. Inl (Thrown ''boom'')), message = None\<rparr>"

definition age_field :: ValidationField where
  "age_field =
     ValidationField ''age'' False (Some [throwing_test]) None None None None None None"

definition person_source :: jsval where
  "person_source = JObj [(''name'', JStr ''John''), (''age'', JNum 17)]"

definition person_state :: ValidationState where
  "person_state =
     \<lparr>isValid = True, fields_state = [(''name'', OStr ''old''), (''age'', OBool True)]\<rparr>"

text \<open>An optional field \<open>email\<close>, absent from the source \<open>{}\<close>.\<close>

definition email_field :: ValidationField where
  "email_field = ValidationField ''email'' True None None None None None None None"

text \<open>
  A field with \<open>stopOnFailure: "tests"\<close>, a first test that fails with a message and a
  second test that passes.
\<close>

definition weak_password_test :: ValidationTest where
  "weak_password_test =
     \<lparr>fn = (\<lambda>v ctx. Inr (RBool (v \<notin> set [JStr ''123456'', JStr ''password'']))),
      message = Some (MLit ''Seriously?!?'')\<rparr>"

definition passing_test :: ValidationTest where
  "passing_test = \<lparr>fn = (\<lambda>v ctx. Inr (RBool True)), message = None\<rparr>"

definition password_field :: ValidationField where
  "password_field =
     ValidationField ''password'' False (Some [weak_password_test, passing_test]) None None None
       None (Some StopTests) None"

definition password_source :: jsval where
  "password_source = JObj [(''password'', JStr ''123456'')]"

text \<open>A field whose emptiness test throws and whose \<open>skipIf\<close> returns \<open>true\<close>.\<close>

definition guarded_field :: ValidationField where
  "guarded_field =
     ValidationField ''name'' False None None (Some (\<lambda>v ctx. Inl (Thrown ''no emptiness'')))
       None (Some (\<lambda>ctx. Inr True)) None None"

text \<open>
  A mandatory array field with nested rules and a test, whose own emptiness test declares
  every value empty.
\<close>

definition always_empty_field :: ValidationField where
  "always_empty_field =
     ValidationField ''subs'' False (Some [throwing_test]) (Some [bread_field])
       (Some (\<lambda>v ctx. Inr True)) None None None None"

definition the_run :: run where
  "the_run = \<lparr>this = new_ObjectValidator [], static = initial_static, data = JUndefined\<rparr>"

text \<open>
  A validator whose instance message is set to the built-in text, and process-wide
  defaults whose mandatory-field message is set to \<open>"custom error"\<close>.
\<close>

definition name_validator :: ObjectValidator where
  "name_validator =
     withMandatoryFieldError (MLit ''empty-mandatory-field'')
       (new_ObjectValidator [field_named ''name''])"

definition custom_static :: ObjectValidator_static where
  "custom_static = setDefaultMandatoryFieldError (MLit ''custom error'') initial_static"

definition empty_name_source :: jsval where
  "empty_name_source = JObj [(''name'', JStr [])]"

definition empty_state :: ValidationState where
  "empty_state = \<lparr>isValid = False, fields_state = []\<rparr>"

text \<open>Evaluation of the definitions on concrete inputs.\<close>

lemmas path_simps =
  field_path_def lodash_get_def get_path_of_def is_deep_prop_def has_prop_def get_prop_def
  lodash_set_def set_path_of_def out_has_prop_def out_prop_def isObject_def isIndex_def
  assignValue_def array_index_def digit_value_def isArray_def elements_def
  string_of_nat.simps digit_char_def

lemmas engine_simps =
  validate_def evaluateFields_def initial_out_def Object_assign_def own_entries_def
  new_ObjectValidator_def initial_static_def aContext_def call_emptyTest_def call_skipIf_def
  mandatory_message_def failure_message_def resolveMessage_def resolveMandatoryFieldError_def
  resolveFailedFieldError_def message_present_def message_value_def
  DEFAULT_EMPTY_FIELD_TEST_def DEFAULT_EMPTY_MANDATORY_FIELD_ERROR_def
  DEFAULT_FAILED_FIELD_ERROR_def typeof_number_def truthy_def optional_length_def Let_def

lemmas example_simps =
  field_named_def some_context_def bread_test_def bread_field_def subs_field_def
  subs_source_def throwing_test_def age_field_def person_source_def person_state_def
  email_field_def weak_password_test_def passing_test_def password_field_def
  password_source_def guarded_field_def always_empty_field_def the_run_def
  name_validator_def custom_static_def empty_name_source_def empty_state_def
  withMandatoryFieldError_def setDefaultMandatoryFieldError_def

section \<open>Induction on rule lists, and the record of calls\<close>

lemma rules_induct [case_names Nil Cons]:
  assumes nil: "P []"
    and cons: "\<And>field rest. P rest \<Longrightarrow> (\<And>sub. fields' field = Some sub \<Longrightarrow> P sub) \<Longrightarrow> P (field # rest)"
  shows "P fs"
proof (induction fs rule: measure_induct_rule [where f = "size_list size"])
  case (less fs)
  show ?case
  proof (cases fs)
    case Nil
    then show ?thesis by (simp add: nil)
  next
    case (Cons field rest)
    have "P rest" using less [of rest] Cons by simp
    moreover have "P sub" if "fields' field = Some sub" for sub
      using less [of sub] that Cons by (cases field) auto
    ultimately show ?thesis using cons Cons by blast
  qed
qed


lemma faithful_return: "faithful calls (calls, Inr v)"
  by (simp add: faithful_def)

lemma faithful_call:
  "call_threw c = thrown_by res \<Longrightarrow> faithful calls (calls @ [c], res)"
  by (cases res) (auto simp: faithful_def thrown_by_def)

lemma faithful_bind:
  assumes "faithful calls oc"
    and "\<And>c v. oc = (c, Inr v) \<Longrightarrow> faithful c (f c v)"
  shows "faithful calls (case oc of (c, Inl e) \<Rightarrow> (c, Inl e) | (c, Inr v) \<Rightarrow> f c v)"
proof (cases oc)
  case (Pair c res)
  show ?thesis
  proof (cases res)
    case (Inl e)
    with Pair assms(1) show ?thesis by (simp add: faithful_def)
  next
    case (Inr v)
    from assms(1) Pair Inr obtain ex1 where 1: "c = calls @ ex1" "list_all (\<lambda>c. call_threw c = None) ex1"
      by (auto simp: faithful_def)
    from assms(2) [of c v] Pair Inr obtain ex2 where 2: "fst (f c v) = c @ ex2"
      "(case snd (f c v) of
         Inr v \<Rightarrow> list_all (\<lambda>c. call_threw c = None) ex2
       | Inl e \<Rightarrow> ex2 \<noteq> [] \<and> list_all (\<lambda>c. call_threw c = None) (butlast ex2)
                  \<and> call_threw (last ex2) = Some e)"
      by (auto simp: faithful_def)
    have "faithful calls (f c v)"
      unfolding faithful_def
      apply (rule exI [of _ "ex1 @ ex2"])
      using 1 2 by (auto split: sum.splits simp: butlast_append)
    with Pair Inr show ?thesis by simp
  qed
qed

lemma faithful_resolveMessage: "faithful calls (resolveMessage m ctx calls)"
  by (cases m) (auto simp: resolveMessage_def faithful_return intro!: faithful_call simp: call_threw_def)

lemma faithful_resolveMandatoryFieldError:
  "faithful calls (resolveMandatoryFieldError self g ctx calls)"
  unfolding resolveMandatoryFieldError_def
  by (intro faithful_bind faithful_resolveMessage faithful_return)

lemma faithful_resolveFailedFieldError:
  "faithful calls (resolveFailedFieldError self g ctx calls)"
  unfolding resolveFailedFieldError_def
  by (intro faithful_bind faithful_resolveMessage faithful_return)

lemma faithful_call_emptyTest: "faithful calls (call_emptyTest r field d ctx calls)"
  by (simp add: call_emptyTest_def Let_def faithful_call call_threw_def)

lemma faithful_call_skipIf: "faithful calls (call_skipIf field ctx calls)"
  by (simp add: call_skipIf_def faithful_call faithful_return call_threw_def split: option.splits)

lemma faithful_mandatory_message: "faithful calls (mandatory_message r field ctx calls)"
  unfolding mandatory_message_def
  by (auto split: option.splits intro!: faithful_bind faithful_resolveMessage
      faithful_resolveMandatoryFieldError)

lemma faithful_failure_message: "faithful calls (failure_message r t res ctx calls)"
  unfolding failure_message_def
  by (auto split: option.splits test_result.splits intro!: faithful_bind faithful_resolveMessage
      faithful_resolveFailedFieldError faithful_return)


lemma faithful_run_tests:
  "faithful calls (run_tests r field d ctx path ts out valid calls)"
proof (induction ts arbitrary: out valid calls)
  case Nil
  show ?case by (simp add: faithful_return)
next
  case (Cons t ts)
  show ?case
  proof (cases "fn t d ctx")
    case (Inl e)
    then show ?thesis by (simp add: faithful_call call_threw_def thrown_by_def)
  next
    case (Inr res)
    have 1: "faithful calls (calls @ [CallTestFn d ctx (Inr res)], Inr ())"
      by (simp add: faithful_call call_threw_def thrown_by_def)
    have 2: "faithful (calls @ [CallTestFn d ctx (Inr res)])
       (run_tests r field d ctx path (t # ts) out valid calls)"
      using Inr
      by (auto simp: Let_def faithful_return Cons.IH split: option.splits
          intro!: faithful_bind faithful_failure_message)
    show ?thesis
      using faithful_bind [OF 1, of "\<lambda>c v. run_tests r field d ctx path (t # ts) out valid calls"] 2
      by simp
  qed
qed

lemma faithful_fan_out:
  assumes "\<And>src base out valid calls. faithful calls (fields_loop r src base sub out valid calls)"
  shows "faithful calls (fan_out r sub path elems idx out valid calls)"
proof (induction elems arbitrary: idx out valid calls)
  case Nil
  show ?case by (simp add: faithful_return)
next
  case (Cons x xs)
  show ?case
    by (auto simp: Cons.IH intro!: faithful_bind assms)
qed

lemma faithful_fields_loop:
  "faithful calls (fields_loop r src base fs out valid calls)"
proof (induction fs arbitrary: src base out valid calls rule: rules_induct)
  case Nil
  show ?case by (simp add: faithful_return)
next
  case (Cons field rest)
  have fan: "faithful c (fan_out r sub p el i ou v c)" if "fields' field = Some sub"
    for sub c p el i ou v
    by (rule faithful_fan_out) (rule Cons.IH(2) [OF that])
  show ?case
    by (auto simp: Let_def faithful_return Cons.IH(1) fan faithful_call_emptyTest
        faithful_call_skipIf faithful_mandatory_message faithful_run_tests
        split: option.splits intro!: faithful_bind)
qed


lemma extends_by_return: "extends_by A calls (calls, Inr v)"
  by (simp add: extends_by_def)

lemma extends_by_call: "A c \<Longrightarrow> extends_by A calls (calls @ [c], res)"
  by (simp add: extends_by_def)

lemma extends_by_mono:
  "extends_by A calls oc \<Longrightarrow> (\<And>c. A c \<Longrightarrow> B c) \<Longrightarrow> extends_by B calls oc"
  by (auto simp: extends_by_def list_all_iff)

lemma extends_by_bind:
  assumes "extends_by A calls oc"
    and "\<And>c v. oc = (c, Inr v) \<Longrightarrow> extends_by A c (f c v)"
  shows "extends_by A calls (case oc of (c, Inl e) \<Rightarrow> (c, Inl e) | (c, Inr v) \<Rightarrow> f c v)"
proof (cases oc)
  case (Pair c res)
  show ?thesis
  proof (cases res)
    case (Inl e)
    with Pair assms(1) show ?thesis by (simp add: extends_by_def)
  next
    case (Inr v)
    from assms(1) Pair obtain ex1 where 1: "c = calls @ ex1" "list_all A ex1"
      by (auto simp: extends_by_def)
    from assms(2) [of c v] Pair Inr obtain ex2 where 2: "fst (f c v) = c @ ex2" "list_all A ex2"
      by (auto simp: extends_by_def)
    have "extends_by A calls (f c v)"
      unfolding extends_by_def using 1 2 by (intro exI [of _ "ex1 @ ex2"]) simp
    with Pair Inr show ?thesis by simp
  qed
qed

lemma extends_by_resolveMessage:
  "A (CallMessage ctx (message_text m ctx)) \<Longrightarrow> extends_by A calls (resolveMessage m ctx calls)"
  by (cases m) (auto simp: resolveMessage_def message_text_def extends_by_return extends_by_call)

lemma extends_by_resolveMandatoryFieldError:
  "(\<And>res. A (CallMessage ctx res)) \<Longrightarrow>
   extends_by A calls (resolveMandatoryFieldError self g ctx calls)"
  unfolding resolveMandatoryFieldError_def
  by (intro extends_by_bind extends_by_resolveMessage extends_by_return)

lemma extends_by_resolveFailedFieldError:
  "(\<And>res. A (CallMessage ctx res)) \<Longrightarrow>
   extends_by A calls (resolveFailedFieldError self g ctx calls)"
  unfolding resolveFailedFieldError_def
  by (intro extends_by_bind extends_by_resolveMessage extends_by_return)

lemma extends_by_mandatory_message:
  "(\<And>res. A (CallMessage ctx res)) \<Longrightarrow> extends_by A calls (mandatory_message r field ctx calls)"
  unfolding mandatory_message_def
  by (auto split: option.splits intro!: extends_by_bind extends_by_resolveMessage
      extends_by_resolveMandatoryFieldError)

lemma extends_by_failure_message:
  "(\<And>res. A (CallMessage ctx res)) \<Longrightarrow> extends_by A calls (failure_message r t res ctx calls)"
  unfolding failure_message_def
  by (auto split: option.splits test_result.splits intro!: extends_by_bind
      extends_by_resolveMessage extends_by_resolveFailedFieldError extends_by_return)

lemma extends_by_call_emptyTest:
  "(\<And>res. A (CallEmptyTest d ctx res)) \<Longrightarrow> extends_by A calls (call_emptyTest r field d ctx calls)"
  by (simp add: call_emptyTest_def Let_def extends_by_call)

lemma extends_by_call_skipIf:
  "(\<And>res. A (CallSkipIf ctx res)) \<Longrightarrow> extends_by A calls (call_skipIf field ctx calls)"
  by (simp add: call_skipIf_def extends_by_call extends_by_return split: option.splits)

lemma extends_by_run_tests:
  assumes "\<And>res. A (CallTestFn d ctx res)" "\<And>res. A (CallMessage ctx res)"
  shows "extends_by A calls (run_tests r field d ctx path ts out valid calls)"
proof (induction ts arbitrary: out valid calls)
  case Nil
  show ?case by (simp add: extends_by_return)
next
  case (Cons t ts)
  show ?case
  proof (cases "fn t d ctx")
    case (Inl e)
    then show ?thesis by (simp add: extends_by_call assms)
  next
    case (Inr res)
    have 1: "extends_by A calls (calls @ [CallTestFn d ctx (Inr res)], Inr ())"
      by (simp add: extends_by_call assms)
    have 2: "extends_by A (calls @ [CallTestFn d ctx (Inr res)])
       (run_tests r field d ctx path (t # ts) out valid calls)"
      using Inr
      by (auto simp: Let_def extends_by_return Cons.IH assms split: option.splits
          intro!: extends_by_bind extends_by_failure_message)
    show ?thesis
      using extends_by_bind [OF 1, of "\<lambda>c v. run_tests r field d ctx path (t # ts) out valid calls"] 2
      by simp
  qed
qed

text \<open>What one rule does when it is mandatory and empty.\<close>

lemma fields_loop_mandatory_empty:
  assumes "\<not> isOptional field"
    and "call_emptyTest r field (lodash_get src (name field)) (aContext r src field) calls
           = (calls1, Inr True)"
    and "call_skipIf field (aContext r src field) calls1 = (calls2, Inr False)"
    and "mandatory_message r field (aContext r src field) calls2 = (calls3, Inr msg)"
  shows "fields_loop r src base (field # rest) out valid calls =
           fields_loop r src base rest
             (lodash_set out (field_path base (name field)) (OStr msg)) False calls3"
  using assms by (simp add: Let_def)

lemma mandatory_message_text:
  "snd (mandatory_message r field ctx calls) = mandatory_text (this r) (static r) field ctx"
  by (auto simp: mandatory_message_def mandatory_text_def resolveMandatoryFieldError_def
      resolveMessage_def message_text_def
      split: option.splits ValidationMessage.splits sum.splits prod.splits)


lemma call_context_simps:
  "call_context (CallEmptyTest v ctx r1) = ctx"
  "call_context (CallSkipIf ctx r2) = ctx"
  "call_context (CallTestFn v ctx r3) = ctx"
  "call_context (CallMessage ctx r4) = ctx"
  by (simp_all add: call_context_def)

lemma rule_context_Cons: "rule_context r src rest ctx \<Longrightarrow> rule_context r src (field # rest) ctx"
  by (induction rule: rule_context.cases) (auto intro: rule_context.intros)

lemma extends_by_fan_out:
  assumes "\<And>subData base out valid calls. subData \<in> set elems \<Longrightarrow>
             extends_by A calls (fields_loop r subData base sub out valid calls)"
  shows "extends_by A calls (fan_out r sub path elems idx out valid calls)"
  using assms
proof (induction elems arbitrary: idx out valid calls)
  case Nil
  show ?case by (simp add: extends_by_return)
next
  case (Cons x xs)
  show ?case
    by (auto simp: Cons intro!: extends_by_bind)
qed

lemma calls_in_context:
  "extends_by (\<lambda>c. rule_context r src fs (call_context c)) calls
     (fields_loop r src base fs out valid calls)"
proof (induction fs arbitrary: src base out valid calls rule: rules_induct)
  case Nil
  show ?case by (simp add: extends_by_return)
next
  case (Cons field rest)
  let ?A = "\<lambda>c. rule_context r src (field # rest) (call_context c)"
  have own: "rule_context r src (field # rest) (aContext r src field)"
    by (rule rule_context.own) simp
  have tail: "extends_by ?A c (fields_loop r src base rest ou v c)" for c ou v
    by (rule extends_by_mono [OF Cons.IH(1)]) (rule rule_context_Cons)
  have fan: "extends_by ?A c (fan_out r sub p (elements (lodash_get src (name field))) i ou v c)"
    if "fields' field = Some sub" for sub c p i ou v
  proof (rule extends_by_fan_out)
    fix subData base' out' valid' calls'
    assume el: "subData \<in> set (elements (lodash_get src (name field)))"
    show "extends_by ?A calls' (fields_loop r subData base' sub out' valid' calls')"
      by (rule extends_by_mono [OF Cons.IH(2) [OF that]])
         (rule rule_context.nested [OF _ that el], simp)
  qed
  show ?case
    by (auto simp: Let_def extends_by_return tail fan own call_context_simps
        extends_by_call_emptyTest extends_by_call_skipIf extends_by_mandatory_message
        extends_by_run_tests
        split: option.splits intro!: extends_by_bind)
qed

lemma extends_fields_loop:
  "extends_by (\<lambda>c. True) calls (fields_loop r src base fs out valid calls)"
  by (rule extends_by_mono [OF calls_in_context]) simp

lemma extends_fan_out:
  "extends_by (\<lambda>c. True) calls (fan_out r sub path elems idx out valid calls)"
  by (rule extends_by_fan_out) (rule extends_fields_loop)


lemma fields_loop_after_skipIf:
  assumes "call_emptyTest r field (lodash_get src (name field)) (aContext r src field) calls
             = (calls1, Inr isEmpty)"
    and "call_skipIf field (aContext r src field) calls1 = (calls2, Inr skip)"
  shows "extends_by (\<lambda>c. True) calls2 (fields_loop r src base (field # rest) out valid calls)"
  using assms
  by (auto simp: Let_def extends_by_return extends_fields_loop extends_fan_out
      extends_by_mandatory_message extends_by_run_tests
      split: option.splits intro!: extends_by_bind)

lemma fields_loop_first_calls:
  "\<exists>rest_calls.
      fst (fields_loop r src base (field # rest) out valid calls) =
        calls @ [CallEmptyTest (lodash_get src (name field)) (aContext r src field)
                   ((case emptyTest field of Some t \<Rightarrow> t | None \<Rightarrow> emptyFieldTest (this r))
                      (lodash_get src (name field)) (aContext r src field))]
          @ (case ((case emptyTest field of Some t \<Rightarrow> t | None \<Rightarrow> emptyFieldTest (this r))
                      (lodash_get src (name field)) (aContext r src field), skipIf field) of
               (Inr b, Some s) \<Rightarrow>
                 [CallSkipIf (aContext r src field) (s (aContext r src field))]
             | _ \<Rightarrow> [])
          @ rest_calls"
proof -
  let ?d = "lodash_get src (name field)" and ?ctx = "aContext r src field"
  let ?emp = "(case emptyTest field of Some t \<Rightarrow> t | None \<Rightarrow> emptyFieldTest (this r)) ?d ?ctx"
  let ?c1 = "calls @ [CallEmptyTest ?d ?ctx ?emp]"
  have e: "call_emptyTest r field ?d ?ctx calls = (?c1, ?emp)"
    by (simp add: call_emptyTest_def Let_def)
  show ?thesis
  proof (cases ?emp)
    case (Inl err)
    then show ?thesis using e by (simp add: Let_def)
  next
    case (Inr b)
    from e Inr have e': "call_emptyTest r field ?d ?ctx calls = (?c1, Inr b)" by simp
    show ?thesis
    proof (cases "skipIf field")
      case None
      then have s: "call_skipIf field ?ctx ?c1 = (?c1, Inr False)"
        by (simp add: call_skipIf_def)
      from fields_loop_after_skipIf [OF e' s, of base rest out valid]
      show ?thesis using Inr None by (auto simp: extends_by_def simp del: fields_loop.simps)
    next
      case (Some s)
      let ?c2 = "?c1 @ [CallSkipIf ?ctx (s ?ctx)]"
      have sk: "call_skipIf field ?ctx ?c1 = (?c2, s ?ctx)"
        using Some by (simp add: call_skipIf_def)
      show ?thesis
      proof (cases "s ?ctx")
        case (Inl err)
        then show ?thesis using e Inr Some sk by (simp add: Let_def)
      next
        case Inr2: (Inr skip)
        from sk Inr2 have sk': "call_skipIf field ?ctx ?c1 = (?c2, Inr skip)" by simp
        from fields_loop_after_skipIf [OF e' sk', of base rest out valid]
        show ?thesis using Inr Some by (auto simp: extends_by_def simp del: fields_loop.simps)
      qed
    qed
  qed
qed


lemma is_test_call_simps:
  "is_test_call (CallEmptyTest v ctx r1) = False"
  "is_test_call (CallSkipIf ctx r2) = False"
  "is_test_call (CallTestFn v ctx r3) = True"
  "is_test_call (CallMessage ctx r4) = False"
  by (simp_all add: is_test_call_def)

lemma extends_by_trans:
  assumes "extends_by A calls (calls1, Inr v)" and "extends_by A calls1 oc"
  shows "extends_by A calls oc"
proof -
  from assms(1) obtain ex1 where 1: "calls1 = calls @ ex1" "list_all A ex1"
    by (auto simp: extends_by_def)
  from assms(2) obtain ex2 where 2: "fst oc = calls1 @ ex2" "list_all A ex2"
    by (auto simp: extends_by_def)
  show ?thesis
    unfolding extends_by_def using 1 2 by (intro exI [of _ "ex1 @ ex2"]) simp
qed

text \<open>What one rule does when it is mandatory, empty and not skipped.\<close>

lemma mandatory_empty_step:
  assumes nonopt: "\<not> isOptional field"
    and emp: "(case emptyTest field of Some t \<Rightarrow> t | None \<Rightarrow> emptyFieldTest (this r))
                (lodash_get src (name field)) (aContext r src field) = Inr True"
    and skip: "case skipIf field of None \<Rightarrow> True | Some s \<Rightarrow> s (aContext r src field) = Inr False"
    and mtext: "mandatory_text (this r) (static r) field (aContext r src field) = Inr msg"
  shows "\<exists>calls3.
           fields_loop r src base (field # rest) out valid calls =
             fields_loop r src base rest
               (lodash_set out (field_path base (name field)) (OStr msg)) False calls3
         \<and> extends_by (\<lambda>c. \<not> is_test_call c \<and> call_context c = aContext r src field)
               calls (calls3, Inr ())"
proof -
  let ?d = "lodash_get src (name field)" and ?ctx = "aContext r src field"
  let ?A = "\<lambda>c. \<not> is_test_call c \<and> call_context c = ?ctx"
  obtain calls1 where c1: "call_emptyTest r field ?d ?ctx calls = (calls1, Inr True)"
    using emp by (simp add: call_emptyTest_def Let_def)
  obtain calls2 where c2: "call_skipIf field ?ctx calls1 = (calls2, Inr False)"
    using skip by (auto simp: call_skipIf_def split: option.splits)
  obtain calls3 where c3: "mandatory_message r field ?ctx calls2 = (calls3, Inr msg)"
    using mandatory_message_text [of r field ?ctx calls2] mtext
    by (cases "mandatory_message r field ?ctx calls2") simp
  have e1: "extends_by ?A calls (calls1, Inr True)"
    using extends_by_call_emptyTest [of ?A ?d ?ctx calls r field] c1
    by (simp add: is_test_call_simps call_context_simps)
  have e2: "extends_by ?A calls1 (calls2, Inr False)"
    using extends_by_call_skipIf [of ?A ?ctx calls1 field] c2
    by (simp add: is_test_call_simps call_context_simps)
  have e3: "extends_by ?A calls2 (calls3, Inr msg)"
    using extends_by_mandatory_message [of ?A ?ctx calls2 r field] c3
    by (simp add: is_test_call_simps call_context_simps)
  have "extends_by ?A calls (calls3, Inr ())"
    using extends_by_trans [OF e1 extends_by_trans [OF e2 e3]]
    by (simp add: extends_by_def)
  moreover note fields_loop_mandatory_empty [OF nonopt c1 c2 c3, of base rest out valid]
  ultimately show ?thesis by blast
qed

section \<open>The entries of an object\<close>

lemma map_of_obj_assign: "map_of (obj_assign kvs k v) = (map_of kvs)(k \<mapsto> v)"
  by (induction kvs) (auto simp: fun_eq_iff)

lemma keys_obj_assign: "fst ` set (obj_assign kvs k v) = insert k (fst ` set kvs)"
proof -
  have "dom (map_of (obj_assign kvs k v)) = insert k (dom (map_of kvs))"
    by (simp add: map_of_obj_assign)
  then show ?thesis by (simp add: dom_map_of_conv_image_fst)
qed

lemma values_obj_assign:
  "(k', v') \<in> set (obj_assign kvs k v) \<Longrightarrow> v' = v \<or> (k', v') \<in> set kvs"
  by (induction kvs) (auto split: if_splits)

lemma keys_preclear:
  "fst ` set (foldl (\<lambda>acc key. obj_assign acc key b) acc ks) = fst ` set acc \<union> set ks"
  by (induction ks arbitrary: acc) (auto simp: keys_obj_assign)


lemma map_of_assign_all:
  "map_of (foldl (\<lambda>acc (k, v). obj_assign acc k v) t es) k =
     (case map_of (rev es) k of Some v \<Rightarrow> Some v | None \<Rightarrow> map_of t k)"
proof (induction es arbitrary: t)
  case Nil
  show ?case by simp
next
  case (Cons e es)
  obtain k' v' where e: "e = (k', v')" by (cases e)
  show ?case
    by (auto simp: Cons.IH e map_of_obj_assign map_add_def split: option.splits)
qed


lemma map_of_constant:
  assumes "\<And>k v. (k, v) \<in> set es \<Longrightarrow> v = b"
  shows "map_of es k = (if k \<in> fst ` set es then Some b else None)"
proof (cases "map_of es k")
  case None
  then show ?thesis by (simp add: map_of_eq_None_iff)
next
  case (Some v)
  then have "(k, v) \<in> set es" by (rule map_of_SomeD)
  with assms Some show ?thesis by (auto simp: rev_image_eqI)
qed

lemma values_preclear:
  "(k, v) \<in> set (foldl (\<lambda>acc key. obj_assign acc key b) acc ks)
   \<Longrightarrow> v = b \<or> (k, v) \<in> set acc"
proof (induction ks arbitrary: acc)
  case Nil
  then show ?case by simp
next
  case (Cons x xs)
  from Cons.IH [of "obj_assign acc x b"] Cons.prems
  have "v = b \<or> (k, v) \<in> set (obj_assign acc x b)" by simp
  then show ?case using values_obj_assign [of k v acc x b] by blast
qed

text \<open>The state after a run that wrote nothing: every key it had holds \<open>false\<close>.\<close>

lemma map_of_cleared_state:
  "map_of (Object_assign fs (initial_out fs)) k =
     (if k \<in> fst ` set fs then Some (OBool False) else None)"
proof -
  let ?pre = "foldl (\<lambda>acc key. obj_assign acc key (OBool False)) [] (map fst fs)"
  have keys: "fst ` set ?pre = fst ` set fs"
    by (simp add: keys_preclear)
  have "map_of (rev ?pre) k = (if k \<in> fst ` set (rev ?pre) then Some (OBool False) else None)"
    by (rule map_of_constant) (use values_preclear [of _ _ "OBool False" "[]"] in auto)
  then have "map_of (rev ?pre) k = (if k \<in> fst ` set fs then Some (OBool False) else None)"
    using keys by simp
  then show ?thesis
    by (auto simp: Object_assign_def initial_out_def own_entries_def map_of_assign_all
        map_of_eq_None_iff split: option.splits)
qed




section \<open>Runs from related output objects\<close>










section \<open>The path setter on output objects\<close>
















section \<open>The state published by a run\<close>

















section \<open>The default emptiness test\<close>




section \<open>Failure of a caller-supplied function\<close>

text \<open>
  C1: if a caller-supplied predicate or test called during \<open>validate\<close> throws, then
  \<open>validate\<close> fails with that error and the caller's state object, \<open>fields\<close> and
  \<open>isValid\<close>, is exactly what it was before the call. Conversely a failing \<open>validate\<close>
  leaves the state untouched, and the error is the one thrown by the last call made.
\<close>

theorem validate_throw_leaves_state:
  assumes "validate self g stateObj src cd = (stateObj', calls, res)"
  shows "(\<forall>c \<in> set calls. \<forall>e. call_threw c = Some e \<longrightarrow> res = Inl e \<and> stateObj' = stateObj)
       \<and> (\<forall>e. res = Inl e \<longrightarrow>
             stateObj' = stateObj \<and> calls \<noteq> [] \<and> call_threw (last calls) = Some e)"
proof -
  let ?oc = "evaluateFields \<lparr>this = self, static = g, data = cd\<rparr> src (rules self)
               (initial_out (fields_state stateObj)) [] []"
  have f: "faithful [] ?oc"
    unfolding evaluateFields_def by (rule faithful_fields_loop)
  show ?thesis
  proof (cases ?oc)
    case (Pair cs r)
    show ?thesis
    proof (cases r)
      case (Inl e)
      with Pair assms have eq: "stateObj' = stateObj" "calls = cs" "res = Inl e"
        by (simp_all add: validate_def Let_def)
      from f Pair Inl have 1: "cs \<noteq> []" "list_all (\<lambda>c. call_threw c = None) (butlast cs)"
        "call_threw (last cs) = Some e"
        by (auto simp: faithful_def)
      have "e' = e" if "c \<in> set cs" "call_threw c = Some e'" for c e'
      proof -
        from 1(1) have "cs = butlast cs @ [last cs]" by simp
        then have "c \<in> set (butlast cs) \<or> c = last cs"
          using that(1) by (metis Un_iff insert_iff list.set(2) set_append empty_iff list.set(1))
        then show ?thesis using 1(2,3) that(2) by (auto simp: list_all_iff)
      qed
      with eq 1 show ?thesis by auto
    next
      case (Inr v)
      obtain out1 valid where v: "v = (out1, valid)" by (cases v)
      from Pair Inr v assms have eq: "calls = cs" "res = Inr valid"
        by (simp_all add: validate_def Let_def)
      from f Pair Inr have "list_all (\<lambda>c. call_threw c = None) cs"
        by (auto simp: faithful_def)
      with eq show ?thesis by (auto simp: list_all_iff)
    qed
  qed
qed

theorem validate_throw_leaves_state_witness:
  "snd (snd (validate (new_ObjectValidator [field_named ''name'', age_field]) initial_static
        person_state person_source JUndefined)) = Inl (Thrown ''boom'')
   \<and> fst (validate (new_ObjectValidator [field_named ''name'', age_field]) initial_static
        person_state person_source JUndefined) = person_state"
proof -
  let ?v = "validate (new_ObjectValidator [field_named ''name'', age_field]) initial_static
        person_state person_source JUndefined"
  have h: "?v = (fst ?v, fst (snd ?v), snd (snd ?v))" by simp
  have r: "snd (snd ?v) = Inl (Thrown ''boom'')"
    by (simp add: engine_simps path_simps example_simps)
  from validate_throw_leaves_state [OF h] r show ?thesis by blast
qed


section \<open>Order of the emptiness test and \<open>skipIf\<close>\<close>

text \<open>
  C9: for every rule node the emptiness predicate (the node's \<open>emptyTest\<close> or the
  instance default) is called first, and \<open>skipIf\<close> is consulted only after it returned;
  so if the emptiness predicate throws, the evaluation of the node fails with that error
  whatever \<open>skipIf\<close> is, and \<open>validate\<close> rejects and leaves the state as it was.
\<close>

theorem emptiness_test_precedes_skipIf:
  "(\<exists>rest_calls.
      fst (fields_loop r src base (field # rest) out valid calls) =
        calls @ [CallEmptyTest (lodash_get src (name field)) (aContext r src field)
                   ((case emptyTest field of Some t \<Rightarrow> t | None \<Rightarrow> emptyFieldTest (this r))
                      (lodash_get src (name field)) (aContext r src field))]
          @ (case ((case emptyTest field of Some t \<Rightarrow> t | None \<Rightarrow> emptyFieldTest (this r))
                      (lodash_get src (name field)) (aContext r src field), skipIf field) of
               (Inr b, Some s) \<Rightarrow>
                 [CallSkipIf (aContext r src field) (s (aContext r src field))]
             | _ \<Rightarrow> [])
          @ rest_calls)
   \<and> ((case emptyTest field of Some t \<Rightarrow> t | None \<Rightarrow> emptyFieldTest (this r))
          (lodash_get src (name field)) (aContext r src field) = Inl e
        \<longrightarrow> fields_loop r src base (field # rest) out valid calls =
              (calls @ [CallEmptyTest (lodash_get src (name field)) (aContext r src field)
                          (Inl e)], Inl e))
   \<and> ((case emptyTest field of Some t \<Rightarrow> t | None \<Rightarrow> emptyFieldTest self)
          (lodash_get src (name field))
          (aContext \<lparr>this = self, static = g, data = cd\<rparr> src field) = Inl e
        \<and> rules self = field # rest
        \<longrightarrow> validate self g stateObj src cd =
              (stateObj,
               [CallEmptyTest (lodash_get src (name field))
                  (aContext \<lparr>this = self, static = g, data = cd\<rparr> src field) (Inl e)],
               Inl e))"
proof (intro conjI)
  show "\<exists>rest_calls.
      fst (fields_loop r src base (field # rest) out valid calls) =
        calls @ [CallEmptyTest (lodash_get src (name field)) (aContext r src field)
                   ((case emptyTest field of Some t \<Rightarrow> t | None \<Rightarrow> emptyFieldTest (this r))
                      (lodash_get src (name field)) (aContext r src field))]
          @ (case ((case emptyTest field of Some t \<Rightarrow> t | None \<Rightarrow> emptyFieldTest (this r))
                      (lodash_get src (name field)) (aContext r src field), skipIf field) of
               (Inr b, Some s) \<Rightarrow>
                 [CallSkipIf (aContext r src field) (s (aContext r src field))]
             | _ \<Rightarrow> [])
          @ rest_calls"
    by (rule fields_loop_first_calls)
qed (auto simp: Let_def call_emptyTest_def validate_def evaluateFields_def split: option.splits)


theorem emptiness_test_precedes_skipIf_witness:
  "validate (new_ObjectValidator [guarded_field]) initial_static person_state person_source
     JUndefined =
     (person_state,
      [CallEmptyTest (JStr ''John'')
         \<lparr>currentFieldName = ''name'', source = person_source, contextData = JUndefined\<rparr>
         (Inl (Thrown ''no emptiness''))],
      Inl (Thrown ''no emptiness''))"
proof -
  have h: "(case emptyTest guarded_field of Some t \<Rightarrow> t
            | None \<Rightarrow> emptyFieldTest (new_ObjectValidator [guarded_field]))
          (lodash_get person_source (name guarded_field))
          (aContext \<lparr>this = new_ObjectValidator [guarded_field], static = initial_static,
                      data = JUndefined\<rparr> person_source guarded_field)
           = Inl (Thrown ''no emptiness'')
         \<and> rules (new_ObjectValidator [guarded_field]) = guarded_field # []"
    by (simp add: guarded_field_def new_ObjectValidator_def)
  have d: "lodash_get person_source ''name'' = JStr ''John''"
    by (simp add: person_source_def path_simps)
  from emptiness_test_precedes_skipIf
    [where field = guarded_field and rest = "[]" and e = "Thrown ''no emptiness''"
       and self = "new_ObjectValidator [guarded_field]" and g = initial_static
       and cd = JUndefined and src = person_source and stateObj = person_state] h
  have "validate (new_ObjectValidator [guarded_field]) initial_static person_state
          person_source JUndefined =
     (person_state,
      [CallEmptyTest (lodash_get person_source (name guarded_field))
         (aContext \<lparr>this = new_ObjectValidator [guarded_field], static = initial_static,
                      data = JUndefined\<rparr> person_source guarded_field)
         (Inl (Thrown ''no emptiness''))],
      Inl (Thrown ''no emptiness''))"
    by blast
  then show ?thesis
    by (simp add: d aContext_def guarded_field_def)
qed


section \<open>An empty mandatory field\<close>





section \<open>The mandatory-field message\<close>

text \<open>
  C3 as stated fails: the instance message is compared with the built-in text
  \<open>"empty-mandatory-field"\<close>, not with the process-wide default. With the instance message
  set to \<open>"empty-mandatory-field"\<close> and the process-wide default set to \<open>"custom error"\<close>,
  the two texts differ, so the stated precedence selects the instance message; the code
  records \<open>"custom error"\<close>.
\<close>

theorem mandatory_precedence_counterexample:
  "fields_state (fst (validate name_validator custom_static empty_state empty_name_source
      JUndefined)) = [(''name'', OStr ''custom error'')]
   \<and> spec_mandatory_text name_validator custom_static (field_named ''name'') some_context
       = Inr ''empty-mandatory-field''"
  by (simp add: engine_simps path_simps example_simps spec_mandatory_text_def message_text_def)

text \<open>
  C3 (as amended): when a non-optional field is empty, the recorded failure message is
  resolved with this precedence: the field's own \<open>emptyFieldMessage\<close> if it is present and
  not the empty string; otherwise the validator-instance message if its resolved text
  differs from the built-in text \<open>"empty-mandatory-field"\<close>; otherwise the process-wide
  default as currently set by the static setter.
\<close>

theorem mandatory_message_precedence:
  assumes "\<not> isOptional field"
    and "(case emptyTest field of Some t \<Rightarrow> t | None \<Rightarrow> emptyFieldTest (this r))
           (lodash_get src (name field)) (aContext r src field) = Inr True"
    and "case skipIf field of None \<Rightarrow> True | Some s \<Rightarrow> s (aContext r src field) = Inr False"
    and "mandatory_text (this r) (static r) field (aContext r src field) = Inr msg"
  shows "snd (mandatory_message r field (aContext r src field) calls') = Inr msg
       \<and> (\<exists>calls3.
            fields_loop r src base (field # rest) out valid calls =
              fields_loop r src base rest
                (lodash_set out (field_path base (name field)) (OStr msg)) False calls3)"
  using mandatory_empty_step [OF assms, of base rest out valid calls]
    mandatory_message_text [of r field "aContext r src field" calls'] assms(4)
  by auto

theorem mandatory_message_precedence_witness:
  "snd (fields_loop \<lparr>this = new_ObjectValidator [], static = custom_static, data = JUndefined\<rparr>
          empty_name_source [] [field_named ''name''] (OObj []) True []) =
     Inr (OObj [(''name'', OStr ''custom error'')], False)"
proof -
  let ?r = "\<lparr>this = new_ObjectValidator [], static = custom_static, data = JUndefined\<rparr>"
  let ?f = "field_named ''name''"
  have 1: "\<not> isOptional ?f" by (simp add: field_named_def)
  have 2: "(case emptyTest ?f of Some t \<Rightarrow> t | None \<Rightarrow> emptyFieldTest (this ?r))
           (lodash_get empty_name_source (name ?f)) (aContext ?r empty_name_source ?f) = Inr True"
    by (simp add: engine_simps path_simps example_simps)
  have 3: "case skipIf ?f of None \<Rightarrow> True
           | Some s \<Rightarrow> s (aContext ?r empty_name_source ?f) = Inr False"
    by (simp add: field_named_def)
  have 4: "mandatory_text (this ?r) (static ?r) ?f (aContext ?r empty_name_source ?f)
            = Inr ''custom error''"
    by (simp add: mandatory_text_def message_present_def message_text_def engine_simps
        example_simps)
  from mandatory_message_precedence [OF 1 2 3 4, of "[]" "[]" "[]" "OObj []" True "[]"]
  obtain calls3 where
    "fields_loop ?r empty_name_source [] [?f] (OObj []) True [] =
       fields_loop ?r empty_name_source [] []
         (lodash_set (OObj []) (field_path [] (name ?f)) (OStr ''custom error'')) False calls3"
    by blast
  then show ?thesis
    by (simp add: field_named_def path_simps del: fields_loop.simps(2))
qed


section \<open>Stopping the test chain on failure\<close>

text \<open>
  C7: for a field with \<open>stopOnFailure\<close> set to \<open>"tests"\<close> whose first test fails, the
  field's recorded result is the first test's failure message and the chain ends there:
  whatever the second and later tests are (in particular a second test that would pass),
  the outcome is the same and the only test call made is the call of the first test.
\<close>

theorem stop_on_failure_tests:
  assumes "stopOnFailure field = Some StopTests"
    and "fn first d ctx = Inr res" and "res \<noteq> RBool True"
    and "failure_message r first res ctx (calls @ [CallTestFn d ctx (Inr res)])
           = (calls2, Inr msg)"
  shows "run_tests r field d ctx path (first # second # later) out valid calls =
           (calls2, Inr (lodash_set out path msg, False, False))
       \<and> filter is_test_call calls2 = filter is_test_call calls @ [CallTestFn d ctx (Inr res)]"
proof
  show "run_tests r field d ctx path (first # second # later) out valid calls =
           (calls2, Inr (lodash_set out path msg, False, False))"
    using assms by (simp add: Let_def)
  have "extends_by (\<lambda>c. \<not> is_test_call c) (calls @ [CallTestFn d ctx (Inr res)])
          (failure_message r first res ctx (calls @ [CallTestFn d ctx (Inr res)]))"
    by (rule extends_by_failure_message) (simp add: is_test_call_simps)
  then obtain extra where "calls2 = (calls @ [CallTestFn d ctx (Inr res)]) @ extra"
    and "list_all (\<lambda>c. \<not> is_test_call c) extra"
    using assms(4) by (auto simp: extends_by_def)
  then show "filter is_test_call calls2 =
      filter is_test_call calls @ [CallTestFn d ctx (Inr res)]"
    by (simp add: is_test_call_simps list_all_iff)
qed

theorem stop_on_failure_tests_witness:
  "run_tests the_run password_field (JStr ''123456'') some_context ''password''
     [weak_password_test, passing_test] (OObj [(''password'', OBool True)]) True [] =
   ([CallTestFn (JStr ''123456'') some_context (Inr (RBool False))],
    Inr (OObj [(''password'', OStr ''Seriously?!?'')], False, False))"
proof -
  have 1: "stopOnFailure password_field = Some StopTests"
    by (simp add: password_field_def)
  have 2: "fn weak_password_test (JStr ''123456'') some_context = Inr (RBool False)"
    by (simp add: weak_password_test_def)
  have 3: "RBool False \<noteq> RBool True" by simp
  have 4: "failure_message the_run weak_password_test (RBool False) some_context
             ([] @ [CallTestFn (JStr ''123456'') some_context (Inr (RBool False))]) =
           ([CallTestFn (JStr ''123456'') some_context (Inr (RBool False))],
            Inr (OStr ''Seriously?!?''))"
    by (simp add: failure_message_def message_present_def resolveMessage_def
        weak_password_test_def)
  from stop_on_failure_tests [OF 1 2 3 4, of "''password''" passing_test "[]"
      "OObj [(''password'', OBool True)]" True]
  show ?thesis by (simp add: path_simps del: run_tests.simps)
qed


section \<open>An empty optional field\<close>

text \<open>
  C4 as stated fails: a pre-existing value stored in \<open>state.fields\<close> for the path of an
  empty optional field is not left untouched. \<open>validate\<close> starts its output from
  \<open>false\<close> for every key of \<open>state.fields\<close> and merges the output back, so the entry
  \<open>email: "old"\<close> is \<open>email: false\<close> after the call.
\<close>

theorem optional_empty_counterexample:
  "map_of (fields_state (fst (validate (new_ObjectValidator [email_field]) initial_static
      \<lparr>isValid = False, fields_state = [(''email'', OStr ''old'')]\<rparr> (JObj []) JUndefined)))
     ''email'' = Some (OBool False)"
  by (simp add: engine_simps path_simps example_simps)

text \<open>
  C4 (as amended): for a field marked \<open>isOptional\<close> whose value is empty at validation
  time (and whose \<open>skipIf\<close>, if any, does not throw), the engine writes no entry for the
  field and the field does not affect validity: the evaluation goes on with the next
  sibling from the same output object and the same \<open>valid\<close>. A pre-existing value of
  \<open>state.fields\<close> is nevertheless reset: \<open>validate\<close> sets every key that
  \<open>state.fields\<close> had to \<open>false\<close> unless a rule writes it, so with this field as the
  only rule every such key holds \<open>false\<close> after the call and \<open>isValid\<close> is \<open>true\<close>.
\<close>

theorem optional_empty_field_is_skipped:
  assumes "isOptional field"
    and "(case emptyTest field of Some t \<Rightarrow> t | None \<Rightarrow> emptyFieldTest self)
           (lodash_get src (name field))
           (aContext \<lparr>this = self, static = g, data = cd\<rparr> src field) = Inr True"
    and "case skipIf field of None \<Rightarrow> True
         | Some s \<Rightarrow> (\<exists>b. s (aContext \<lparr>this = self, static = g, data = cd\<rparr> src field) = Inr b)"
  shows "(\<exists>calls2.
            fields_loop \<lparr>this = self, static = g, data = cd\<rparr> src base (field # rest)
              out valid calls =
            fields_loop \<lparr>this = self, static = g, data = cd\<rparr> src base rest out valid calls2)
       \<and> (rules self = [field] \<longrightarrow>
            (\<exists>calls2 fs'.
               validate self g stateObj src cd =
                 (\<lparr>isValid = True, fields_state = fs'\<rparr>, calls2, Inr True)
             \<and> (\<forall>k. map_of fs' k =
                   (if k \<in> fst ` set (fields_state stateObj) then Some (OBool False)
                    else None))))"
proof -
  let ?r = "\<lparr>this = self, static = g, data = cd\<rparr>"
  let ?ctx = "aContext ?r src field"
  have step: "\<exists>calls2. fields_loop ?r src base' (field # rest') out' valid' calls' =
                fields_loop ?r src base' rest' out' valid' calls2"
    for base' rest' out' valid' calls'
  proof -
    obtain calls1 where c1: "call_emptyTest ?r field (lodash_get src (name field)) ?ctx calls'
        = (calls1, Inr True)"
      using assms(2) by (cases "emptyTest field") (simp_all add: call_emptyTest_def Let_def)
    obtain calls2 skip where c2: "call_skipIf field ?ctx calls1 = (calls2, Inr skip)"
      using assms(3) by (auto simp: call_skipIf_def split: option.splits)
    show ?thesis
      using assms(1) c1 c2 by (auto simp: Let_def)
  qed
  have "\<exists>calls2 fs'.
         validate self g stateObj src cd = (\<lparr>isValid = True, fields_state = fs'\<rparr>, calls2, Inr True)
       \<and> (\<forall>k. map_of fs' k =
             (if k \<in> fst ` set (fields_state stateObj) then Some (OBool False) else None))"
    if "rules self = [field]"
  proof -
    from step [of "[]" "[]" "initial_out (fields_state stateObj)" True "[]"]
    obtain calls2 where
      "fields_loop ?r src [] [field] (initial_out (fields_state stateObj)) True [] =
         (calls2, Inr (initial_out (fields_state stateObj), True))"
      by (auto simp del: fields_loop.simps(2))
    then have "validate self g stateObj src cd =
        (\<lparr>isValid = True,
          fields_state = Object_assign (fields_state stateObj)
                           (initial_out (fields_state stateObj))\<rparr>, calls2, Inr True)"
      using that by (simp add: validate_def evaluateFields_def Let_def del: fields_loop.simps(2))
    then show ?thesis
      using map_of_cleared_state by blast
  qed
  with step show ?thesis by blast
qed

theorem optional_empty_field_is_skipped_witness:
  "\<exists>calls2 fs'.
     validate (new_ObjectValidator [email_field]) initial_static
       \<lparr>isValid = False, fields_state = [(''email'', OStr ''old'')]\<rparr> (JObj []) JUndefined =
       (\<lparr>isValid = True, fields_state = fs'\<rparr>, calls2, Inr True)
     \<and> map_of fs' ''email'' = Some (OBool False)"
proof -
  let ?st = "\<lparr>isValid = False, fields_state = [(''email'', OStr ''old'')]\<rparr>"
  let ?r = "\<lparr>this = new_ObjectValidator [email_field], static = initial_static,
             data = JUndefined\<rparr>"
  have 1: "isOptional email_field" by (simp add: email_field_def)
  have 2: "(case emptyTest email_field of Some t \<Rightarrow> t
            | None \<Rightarrow> emptyFieldTest (new_ObjectValidator [email_field]))
           (lodash_get (JObj []) (name email_field)) (aContext ?r (JObj []) email_field)
           = Inr True"
    by (simp add: engine_simps path_simps example_simps)
  have 3: "case skipIf email_field of None \<Rightarrow> True
         | Some s \<Rightarrow> (\<exists>b. s (aContext ?r (JObj []) email_field) = Inr b)"
    by (simp add: email_field_def)
  have 4: "rules (new_ObjectValidator [email_field]) = [email_field]"
    by (simp add: new_ObjectValidator_def)
  from optional_empty_field_is_skipped [OF 1 2 3, of "[]" "[]" OUndefined True "[]" ?st] 4
  obtain calls2 fs' where
    "validate (new_ObjectValidator [email_field]) initial_static ?st (JObj []) JUndefined =
       (\<lparr>isValid = True, fields_state = fs'\<rparr>, calls2, Inr True)"
    and "\<forall>k. map_of fs' k =
           (if k \<in> fst ` set (fields_state ?st) then Some (OBool False) else None)"
    by blast
  then show ?thesis by auto
qed


section \<open>The context handed to caller-supplied functions\<close>




section \<open>Results for the elements of an array field\<close>





section \<open>Validating twice\<close>



end
